theory Spec2Isabelle
  imports Main "HOL-Library.Word"
begin

unbundle bit_operations_syntax

section \<open>The sampling facility of zapcore (sampler.go)\<close>

text \<open>
  The embedding follows \<^verbatim>\<open>zapcore/sampler.go\<close>. Go's \<^verbatim>\<open>uint64\<close> and
  \<^verbatim>\<open>uint32\<close> are words of that width. A value of Go's \<^verbatim>\<open>int\<close> or of
  \<^verbatim>\<open>time.Duration\<close> is the integer it denotes, between \<open>- 2 ^ 63\<close> and
  \<open>2 ^ 63 - 1\<close> (a 64-bit platform), and the conversion \<^verbatim>\<open>uint64(x)\<close> of such a
  value is its residue modulo \<open>2 ^ 64\<close>, \<^term>\<open>word_of_int\<close>. A Go string is
  a sequence of bytes, here a \<^typ>\<open>string\<close>. The mutexes protect single
  read-modify-write steps; the embedding is sequential, so every operation takes the
  state and returns the new one. A run-time panic is a value of \<open>panic\<close>.
\<close>

type_synonym uint64 = "64 word"
type_synonym uint32 = "32 word"
type_synonym go_int = int
type_synonym Duration = int

datatype panic = NilPointerDereference | IntegerDivideByZero

subsection \<open>The exact counters: a map from key to its own atomic counter\<close>

type_synonym counters = "string \<rightharpoonup> uint64"

definition newCounters :: counters where
  "newCounters = Map.empty"

text \<open>
  \<^verbatim>\<open>Inc\<close> looks the key up under the read lock, again under the write lock, and
  creates the counter at 1 when both lookups miss. \<^verbatim>\<open>count.Inc()\<close> is the atomic
  increment, which returns the new value.
\<close>

definition counters_Inc :: "counters \<Rightarrow> string \<Rightarrow> uint64 \<times> counters" where
  "counters_Inc c key =
     (case c key of
        Some count \<Rightarrow> (count + 1, c(key \<mapsto> count + 1))
      | None \<Rightarrow>
         (case c key of
            Some count \<Rightarrow> (count + 1, c(key \<mapsto> count + 1))
          | None \<Rightarrow> (1, c(key \<mapsto> 1))))"

text \<open>
  \<^verbatim>\<open>Reset\<close> reads \<^verbatim>\<open>c.counts[key]\<close> without the presence flag: for a missing key
  the map yields the nil pointer, and \<^verbatim>\<open>count.Store(0)\<close> on nil panics.
\<close>

definition counters_Reset :: "counters \<Rightarrow> string \<Rightarrow> panic + counters" where
  "counters_Reset c key =
     (case c key of
        None \<Rightarrow> Inl NilPointerDereference
      | Some count \<Rightarrow> Inr (c(key \<mapsto> 0)))"

subsection \<open>The sharded counters: a fixed table of buckets\<close>

definition counters2PerLock :: nat where
  "counters2PerLock = 8"

definition counters2BucketMask :: uint32 where
  "counters2BucketMask = 8 - 1"

definition counters2Width :: nat where
  "counters2Width = 8192"

definition counters2Locks :: nat where
  "counters2Locks = 8192 div 8"

text \<open>
  A \<^verbatim>\<open>bucket2\<close> is its array of \<^verbatim>\<open>_counters2PerLock\<close> counts (the mutex has no
  sequential content); \<^verbatim>\<open>counters2\<close> is an array of \<^verbatim>\<open>_counters2Width\<close> buckets.
  The model keeps the arrays as lists and reads and writes by index. Go checks every
  array index and panics on one out of range; the indices \<^verbatim>\<open>Inc\<close> and \<^verbatim>\<open>Reset\<close>
  compute are below 1024 and below 8 (lemmas \<open>bucket_index_less\<close> and
  \<open>slot_index_less\<close>), so that panic has no branch here.
\<close>

type_synonym bucket2 = "uint64 list"
type_synonym counters2 = "bucket2 list"

definition newCounters2 :: counters2 where
  "newCounters2 = replicate counters2Width (replicate counters2PerLock 0)"

definition bucket2_inc :: "bucket2 \<Rightarrow> uint32 \<Rightarrow> string \<Rightarrow> uint64 \<times> bucket2" where
  "bucket2_inc b i key =
     (let n = b ! unat i;
          n = n + 1
      in (n, b[unat i := n]))"

definition bucket2_reset :: "bucket2 \<Rightarrow> uint32 \<Rightarrow> string \<Rightarrow> bucket2" where
  "bucket2_reset b i key = b[unat i := 0]"

text \<open>The fold of the key's bytes into 64 bits, the loop of \<^verbatim>\<open>xorstring\<close>.\<close>

fun xorstring_loop :: "uint64 \<Rightarrow> string \<Rightarrow> uint64" where
  "xorstring_loop n [] = n"
| "xorstring_loop n (b # s) =
     xorstring_loop ((drop_bit 56 (n AND 0xff) OR push_bit 8 n) XOR of_char b) s"

definition xorstring :: "string \<Rightarrow> uint64" where
  "xorstring s = xorstring_loop 0 s"

definition xshrr :: "uint64 \<Rightarrow> uint32" where
  "xshrr n =
     (let xorshifted = (ucast (drop_bit 27 (drop_bit 18 n XOR n)) :: uint32);
          rot = (ucast (drop_bit 59 n) :: uint32)
      in drop_bit (unat rot) xorshifted OR push_bit (unat ((- rot) AND 31)) xorshifted)"

definition hash :: "string \<Rightarrow> uint32" where
  "hash key = xshrr (xorstring key) mod of_nat counters2Width"

definition counters2_Inc :: "counters2 \<Rightarrow> string \<Rightarrow> uint64 \<times> counters2" where
  "counters2_Inc c key =
     (let i = hash key;
          j = unat (i div of_nat counters2PerLock);
          (n, b) = bucket2_inc (c ! j) (i AND counters2BucketMask) key
      in (n, c[j := b]))"

definition counters2_Reset :: "counters2 \<Rightarrow> string \<Rightarrow> counters2" where
  "counters2_Reset c key =
     (let i = hash key;
          j = unat (i div of_nat counters2PerLock)
      in c[j := bucket2_reset (c ! j) (i AND counters2BucketMask) key])"

subsection \<open>The wrapped facility and the sampler\<close>

text \<open>
  \<^verbatim>\<open>Facility\<close>, \<^verbatim>\<open>Entry\<close> and \<^verbatim>\<open>CheckedEntry\<close> are declared elsewhere in the
  package. The sampler reads the level and the message of an entry, asks the wrapped
  facility whether a level is enabled, and hands the entry and the checked entry to the
  wrapped facility's \<^verbatim>\<open>Check\<close>. The level type and the checked entry are parameters.
  The sampler's \<^verbatim>\<open>With\<close>, which wraps the facility's \<^verbatim>\<open>With\<close> and shares the
  counters, is not part of the model.
\<close>

record 'l Entry =
  Level :: 'l
  Message :: string

record ('l, 'ce) Facility =
  Enabled :: "'l \<Rightarrow> bool"
  Check :: "'l Entry \<Rightarrow> 'ce \<Rightarrow> 'ce"

record ('l, 'ce) sampler =
  Facility :: "('l, 'ce) Facility"
  tick :: Duration
  counts :: counters
  first :: uint64
  thereafter :: uint64

definition Sample ::
  "('l, 'ce) Facility \<Rightarrow> Duration \<Rightarrow> go_int \<Rightarrow> go_int \<Rightarrow> ('l, 'ce) sampler" where
  "Sample fac d a b =
     \<lparr>Facility = fac, tick = d, counts = newCounters,
      first = word_of_int a, thereafter = word_of_int b\<rparr>"

text \<open>
  \<^verbatim>\<open>time.AfterFunc(s.tick, func() { s.counts.Reset(ent.Message) })\<close> arms a one-shot
  timer: its delay and the key its function resets. When it fires, it runs
  \<^verbatim>\<open>Reset\<close> on the sampler's counters.
\<close>

type_synonym timer = "Duration \<times> string"

definition timer_fire :: "timer \<Rightarrow> counters \<Rightarrow> panic + counters" where
  "timer_fire t c = counters_Reset c (snd t)"

text \<open>
  \<^verbatim>\<open>Check\<close> has two kinds of return: \<^verbatim>\<open>return ce\<close>, and
  \<^verbatim>\<open>return s.Facility.Check(ent, ce)\<close>. The model keeps which one was taken with
  the value returned. Its result is the return (or the panic of the modulo by zero),
  the sampler with its counters as the call leaves them, and the timers the call armed.
\<close>

datatype 'ce returned = ReturnCe 'ce | ReturnFacilityCheck 'ce

definition sampler_Check ::
  "('l, 'ce) sampler \<Rightarrow> 'l Entry \<Rightarrow> 'ce \<Rightarrow>
     (panic + 'ce returned) \<times> ('l, 'ce) sampler \<times> timer list" where
  "sampler_Check s ent ce =
     (if \<not> Enabled (Facility s) (Level ent) then (Inr (ReturnCe ce), s, [])
      else
        let (n, c) = counters_Inc (counts s) (Message ent);
            s' = s\<lparr>counts := c\<rparr>
        in if n > first s then
             let armed = (if n = first s + 1 then [(tick s, Message ent)] else [])
             in if thereafter s = 0 then (Inl IntegerDivideByZero, s', armed)
                else if (n - first s) mod thereafter s \<noteq> 0 then (Inr (ReturnCe ce), s', armed)
                else (Inr (ReturnFacilityCheck (Check (Facility s) ent ce)), s', armed)
           else (Inr (ReturnFacilityCheck (Check (Facility s) ent ce)), s', []))"

subsection \<open>Callers: sequences of calls\<close>

text \<open>
  The count a key stands at: 0 before its counter exists, as \<^verbatim>\<open>Inc\<close> treats it.
\<close>

definition count_of :: "counters \<Rightarrow> string \<Rightarrow> uint64" where
  "count_of c key = (case c key of None \<Rightarrow> 0 | Some count \<Rightarrow> count)"

text \<open>
  A caller that makes one \<^verbatim>\<open>Check\<close> call after the other on the same sampler, each
  with its entry and checked entry, and stops at a panic. It collects what the calls
  returned and the timers they armed; no timer fires in between.
\<close>

fun sampler_Checks ::
  "('l, 'ce) sampler \<Rightarrow> ('l Entry \<times> 'ce) list \<Rightarrow>
     (panic + 'ce returned) list \<times> ('l, 'ce) sampler \<times> timer list" where
  "sampler_Checks s [] = ([], s, [])"
| "sampler_Checks s ((ent, ce) # calls) =
     (case sampler_Check s ent ce of
        (Inl p, s', armed) \<Rightarrow> ([Inl p], s', armed)
      | (Inr r, s', armed) \<Rightarrow>
          (case sampler_Checks s' calls of
             (rs, s'', armed') \<Rightarrow> (Inr r # rs, s'', armed @ armed')))"

text \<open>How many of the calls carry the message at a level the facility has enabled.\<close>

definition hits :: "('l, 'ce) Facility \<Rightarrow> string \<Rightarrow> ('l Entry \<times> 'ce) list \<Rightarrow> nat" where
  "hits fac m calls =
     length (filter (\<lambda>(ent, ce). Message ent = m \<and> Enabled fac (Level ent)) calls)"

text \<open>Whether a call was handed to the wrapped facility.\<close>

fun forwarded :: "panic + 'ce returned \<Rightarrow> bool" where
  "forwarded (Inr (ReturnFacilityCheck ce)) = True"
| "forwarded (Inr (ReturnCe ce)) = False"
| "forwarded (Inl p) = False"

subsection \<open>The reference hash of the specification\<close>

text \<open>
  The specification gives the hash as three steps: fold the bytes of the key, from left
  to right, into a 64-bit state \<open>n\<close> by \<^verbatim>\<open>n = (n & 0xff) >> 56 | (n << 8)\<close> followed by
  the exclusive or with the byte; permute the state by XSH-RR, with
  \<^verbatim>\<open>xorshifted = uint32(((n >> 18) ^ n) >> 27)\<close>, \<^verbatim>\<open>rot = uint32(n >> 59)\<close> and output
  \<^verbatim>\<open>(xorshifted >> rot) | (xorshifted << ((-rot) & 31))\<close>; place the key at the output
  modulo the table width \<open>W\<close>. These definitions follow those words.
\<close>

definition spec_fold :: "string \<Rightarrow> uint64" where
  "spec_fold key = foldl (\<lambda>n b. (drop_bit 56 (n AND 0xff) OR push_bit 8 n) XOR of_char b) 0 key"

definition spec_permute :: "uint64 \<Rightarrow> uint32" where
  "spec_permute n =
     (let xorshifted = (ucast (drop_bit 27 (drop_bit 18 n XOR n)) :: uint32);
          rot = (ucast (drop_bit 59 n) :: uint32)
      in drop_bit (unat rot) xorshifted OR push_bit (unat ((- rot) AND 31)) xorshifted)"

definition spec_slot :: "nat \<Rightarrow> string \<Rightarrow> nat" where
  "spec_slot W key = unat (spec_permute (spec_fold key)) mod W"

subsection \<open>Callers of the counters: sequences of operations\<close>

text \<open>
  A sequence of \<^verbatim>\<open>Inc\<close> and \<^verbatim>\<open>Reset\<close> calls on the exact counters, which stops at a
  panic, and the same on the sharded counters, which have none. Both collect the counts
  the \<^verbatim>\<open>Inc\<close> calls return.
\<close>

datatype counter_op = Inc string | Reset string

fun run_counters :: "counters \<Rightarrow> counter_op list \<Rightarrow> panic + uint64 list \<times> counters" where
  "run_counters c [] = Inr ([], c)"
| "run_counters c (Inc key # ops) =
     (case counters_Inc c key of
        (n, c') \<Rightarrow>
          (case run_counters c' ops of
             Inl p \<Rightarrow> Inl p
           | Inr (ns, c'') \<Rightarrow> Inr (n # ns, c'')))"
| "run_counters c (Reset key # ops) =
     (case counters_Reset c key of
        Inl p \<Rightarrow> Inl p
      | Inr c' \<Rightarrow> run_counters c' ops)"

fun run_counters2 :: "counters2 \<Rightarrow> counter_op list \<Rightarrow> uint64 list \<times> counters2" where
  "run_counters2 c [] = ([], c)"
| "run_counters2 c (Inc key # ops) =
     (case counters2_Inc c key of
        (n, c') \<Rightarrow> (case run_counters2 c' ops of (ns, c'') \<Rightarrow> (n # ns, c'')))"
| "run_counters2 c (Reset key # ops) = run_counters2 (counters2_Reset c key) ops"

fun op_key :: "counter_op \<Rightarrow> string" where
  "op_key (Inc key) = key"
| "op_key (Reset key) = key"

text \<open>
  The table has \<^verbatim>\<open>_counters2Width\<close> buckets of \<^verbatim>\<open>_counters2PerLock\<close> counts each, as
  its array types say; the count of a key is the one \<^verbatim>\<open>Inc\<close> and \<^verbatim>\<open>Reset\<close> address.
\<close>

definition counters2_wf :: "counters2 \<Rightarrow> bool" where
  "counters2_wf c = (length c = counters2Width \<and> list_all (\<lambda>b. length b = counters2PerLock) c)"

definition counters2_count :: "counters2 \<Rightarrow> string \<Rightarrow> uint64" where
  "counters2_count c key =
     c ! unat (hash key div of_nat counters2PerLock) ! unat (hash key AND counters2BucketMask)"

section \<open>Properties\<close>

subsection \<open>Counts and returns of \<^verbatim>\<open>Check\<close>\<close>

lemma counters_Inc_eq:
  "counters_Inc c key = (count_of c key + 1, c(key \<mapsto> count_of c key + 1))"
  by (simp add: counters_Inc_def count_of_def split: option.split)

lemma count_of_upd: "count_of (c(k \<mapsto> v)) k' = (if k' = k then v else count_of c k')"
  by (simp add: count_of_def)

lemma sampler_Check_disabled_eq:
  "\<not> Enabled (Facility s) (Level ent) \<Longrightarrow> sampler_Check s ent ce = (Inr (ReturnCe ce), s, [])"
  by (simp add: sampler_Check_def)


lemma sampler_Check_sampler:
  "fst (snd (sampler_Check s ent ce)) =
    (if Enabled (Facility s) (Level ent) then
       s\<lparr>counts := (counts s)(Message ent \<mapsto> count_of (counts s) (Message ent) + 1)\<rparr>
     else s)"
  by (simp add: sampler_Check_def counters_Inc_eq Let_def)

lemma sampler_Check_no_panic:
  "thereafter s \<noteq> 0 \<Longrightarrow> \<exists>r. fst (sampler_Check s ent ce) = Inr r"
  by (simp add: sampler_Check_def counters_Inc_eq Let_def)

lemma sampler_Checks_inv:
  "thereafter s \<noteq> 0 \<Longrightarrow>
   Facility (fst (snd (sampler_Checks s calls))) = Facility s \<and>
   tick (fst (snd (sampler_Checks s calls))) = tick s \<and>
   first (fst (snd (sampler_Checks s calls))) = first s \<and>
   thereafter (fst (snd (sampler_Checks s calls))) = thereafter s \<and>
   count_of (counts (fst (snd (sampler_Checks s calls)))) m =
     count_of (counts s) m + of_nat (hits (Facility s) m calls)"
proof (induction calls arbitrary: s)
  case Nil
  then show ?case by (simp add: hits_def)
next
  case (Cons call calls)
  obtain ent ce where call: "call = (ent, ce)" by (cases call)
  obtain r s' armed where step: "sampler_Check s ent ce = (r, s', armed)"
    by (cases "sampler_Check s ent ce")
  from sampler_Check_no_panic [OF Cons.prems, of ent ce] step
  obtain v where r: "r = Inr v" by auto
  have s': "s' = (if Enabled (Facility s) (Level ent) then
       s\<lparr>counts := (counts s)(Message ent \<mapsto> count_of (counts s) (Message ent) + 1)\<rparr>
     else s)"
    using sampler_Check_sampler [of s ent ce] step by simp
  then have th: "thereafter s' \<noteq> 0" using Cons.prems by simp
  obtain rs s'' armed' where rest: "sampler_Checks s' calls = (rs, s'', armed')"
    by (cases "sampler_Checks s' calls")
  have eq: "fst (snd (sampler_Checks s (call # calls))) = fst (snd (sampler_Checks s' calls))"
    by (simp add: call step r rest)
  show ?case
    unfolding eq using Cons.IH [OF th] s'
    by (auto simp: hits_def call count_of_upd)
qed

lemma unat_word_of_int_nonneg:
  "0 \<le> a \<Longrightarrow> a < 2 ^ 63 \<Longrightarrow> unat (word_of_int a :: uint64) = nat a"
  by (simp add: unat_eq_nat_uint uint_word_of_int)

lemma unat_of_nat_uint64: "n < 2 ^ 64 \<Longrightarrow> unat (of_nat n :: uint64) = n"
  by (simp add: unat_of_nat)

lemma of_nat_gt: "n < 2 ^ 64 \<Longrightarrow> ((of_nat n :: uint64) > f) = (n > unat f)"
  by (simp add: word_less_nat_alt unat_of_nat_uint64)

lemma of_nat_sub_mod:
  assumes "unat f < n" "n < 2 ^ 64"
  shows "(((of_nat n :: uint64) - f) mod t = 0) = ((n - unat f) mod unat t = 0)"
proof -
  from assms have le: "f \<le> of_nat n"
    by (simp add: word_le_nat_alt unat_of_nat_uint64)
  have "unat (((of_nat n :: uint64) - f) mod t) = (n - unat f) mod unat t"
    using assms by (simp add: unat_mod unat_sub [OF le] unat_of_nat_uint64)
  then show ?thesis by (metis unat_0_iff)
qed

lemma sampler_Check_return:
  "fst (sampler_Check s ent ce) =
     (if \<not> Enabled (Facility s) (Level ent) then Inr (ReturnCe ce)
      else if count_of (counts s) (Message ent) + 1 > first s then
        (if thereafter s = 0 then Inl IntegerDivideByZero
         else if (count_of (counts s) (Message ent) + 1 - first s) mod thereafter s \<noteq> 0
           then Inr (ReturnCe ce)
         else Inr (ReturnFacilityCheck (Check (Facility s) ent ce)))
      else Inr (ReturnFacilityCheck (Check (Facility s) ent ce)))"
  by (simp add: sampler_Check_def counters_Inc_eq Let_def)

lemma count_of_newCounters: "count_of newCounters m = 0"
  by (simp add: count_of_def newCounters_def)

lemma nth_Check_return:
  assumes a: "0 \<le> a" "a < 2 ^ 63" and b: "1 \<le> b" "b < 2 ^ 63"
    and en: "Enabled fac (Level ent)"
    and n: "n = Suc (hits fac (Message ent) calls)" "n < 2 ^ 64"
  shows "fst (sampler_Check (fst (snd (sampler_Checks (Sample fac d a b) calls))) ent ce) =
     Inr (if n \<le> nat a \<or> (n - nat a) mod nat b = 0
          then ReturnFacilityCheck (Check fac ent ce) else ReturnCe ce)"
proof -
  let ?init = "Sample fac d a b"
  let ?s = "fst (snd (sampler_Checks ?init calls))"
  have ua: "unat (first ?init) = nat a" and ub: "unat (thereafter ?init) = nat b"
    using a b by (simp_all add: Sample_def unat_word_of_int_nonneg)
  from ub b have nz: "thereafter ?init \<noteq> 0"
    by (auto simp flip: unat_0_iff)
  have inv: "Facility ?s = fac" "first ?s = first ?init" "thereafter ?s = thereafter ?init"
    "count_of (counts ?s) (Message ent) + 1 = of_nat n"
    using sampler_Checks_inv [OF nz, of calls "Message ent"] n
    by (simp_all add: Sample_def count_of_newCounters)
  show ?thesis
  proof (cases "n \<le> nat a")
    case True
    then show ?thesis
      using en nz ua by (simp add: sampler_Check_return inv of_nat_gt [OF n(2)])
  next
    case False
    then have lt: "unat (first ?init) < n" using ua by simp
    show ?thesis
      using False en nz lt
      by (simp add: sampler_Check_return inv of_nat_gt [OF n(2)] of_nat_sub_mod [OF lt n(2)] ua ub)
  qed
qed


lemma nth_Check_return_word:
  assumes a: "0 \<le> a" "a < 2 ^ 63" and b: "1 \<le> b" "b < 2 ^ 63"
    and en: "Enabled fac (Level ent)"
    and n: "n = Suc (hits fac (Message ent) calls)"
  shows "fst (sampler_Check (fst (snd (sampler_Checks (Sample fac d a b) calls))) ent ce) =
     Inr (if (of_nat n :: uint64) \<le> word_of_int a \<or>
             ((of_nat n :: uint64) - word_of_int a) mod word_of_int b = 0
          then ReturnFacilityCheck (Check fac ent ce) else ReturnCe ce)"
proof -
  let ?init = "Sample fac d a b"
  let ?s = "fst (snd (sampler_Checks ?init calls))"
  have ub: "unat (thereafter ?init) = nat b"
    using b by (simp add: Sample_def unat_word_of_int_nonneg)
  from ub b have nz: "thereafter ?init \<noteq> 0"
    by (auto simp flip: unat_0_iff)
  have inv: "Facility ?s = fac" "first ?s = word_of_int a" "thereafter ?s = word_of_int b"
    "count_of (counts ?s) (Message ent) + 1 = of_nat n"
    using sampler_Checks_inv [OF nz, of calls "Message ent"] n
    by (simp_all add: Sample_def count_of_newCounters)
  have nz': "(word_of_int b :: uint64) \<noteq> 0"
    using nz by (simp add: Sample_def)
  show ?thesis
    using en nz' by (simp add: sampler_Check_return inv not_less)
qed

lemma sampler_Check_armed:
  "snd (snd (sampler_Check s ent ce)) =
     (if Enabled (Facility s) (Level ent) \<and>
         first s < count_of (counts s) (Message ent) + 1 \<and>
         count_of (counts s) (Message ent) + 1 = first s + 1
      then [(tick s, Message ent)] else [])"
  by (auto simp: sampler_Check_def counters_Inc_eq Let_def)

lemma unat_uint64_bound: "unat w < 2 ^ 64" for w :: uint64
proof -
  have "unat w < 2 ^ LENGTH(64)" by (rule unsigned_less)
  then show ?thesis by simp
qed

lemma crossing_iff:
  "(f < c + 1 \<and> c + 1 = f + 1) = (unat (c + 1) = unat f + 1)" for f c :: uint64
proof -
  have m: "unat (f + 1) = (unat f + 1) mod 2 ^ 64"
    by (simp add: unat_word_ariths)
  have b: "unat f < 2 ^ 64"
    by (rule unat_uint64_bound)
  show ?thesis
  proof (cases "unat f + 1 < 2 ^ 64")
    case True
    then have "unat (f + 1) = unat f + 1" using m by simp
    then show ?thesis
      by (metis add_right_cancel less_add_one word_less_nat_alt word_unat_eq_iff)
  next
    case False
    with b have top: "unat f + 1 = 2 ^ 64" by simp
    have c: "unat (c + 1) < 2 ^ 64" by (rule unat_uint64_bound)
    then have r: "unat (c + 1) \<noteq> unat f + 1" using top by simp
    have "\<not> unat f < unat (c + 1)" using top c by linarith
    then have "\<not> f < c + 1" by (simp add: word_less_nat_alt)
    then show ?thesis using r by simp
  qed
qed

lemma above_no_crossing:
  "f < c \<Longrightarrow> unat (c + 1) \<noteq> unat f + 1" for f c :: uint64
proof
  assume lt: "f < c" and eq: "unat (c + 1) = unat f + 1"
  from eq have "c + 1 = f + 1" using crossing_iff [of f c] by simp
  then have "c = f" by simp
  with lt show False by simp
qed

lemma sampler_Check_thereafter:
  "thereafter (fst (snd (sampler_Check s ent ce))) = thereafter s"
  by (simp add: sampler_Check_sampler)

lemma sampler_Checks_snoc:
  "thereafter s \<noteq> 0 \<Longrightarrow>
   fst (sampler_Checks s (calls @ [(ent, ce)])) =
     fst (sampler_Checks s calls) @
       [fst (sampler_Check (fst (snd (sampler_Checks s calls))) ent ce)]"
proof (induction calls arbitrary: s)
  case Nil
  obtain r s' armed where step: "sampler_Check s ent ce = (r, s', armed)"
    by (cases "sampler_Check s ent ce")
  show ?case by (cases r) (simp_all add: step)
next
  case (Cons call calls)
  obtain e c where call: "call = (e, c)" by (cases call)
  obtain r s' armed where step: "sampler_Check s e c = (r, s', armed)"
    by (cases "sampler_Check s e c")
  from sampler_Check_no_panic [OF Cons.prems, of e c] step
  obtain v where r: "r = Inr v" by auto
  have th: "thereafter s' \<noteq> 0"
    using sampler_Check_thereafter [of s e c] step Cons.prems by simp
  show ?case
    using Cons.IH [OF th]
    by (cases "sampler_Checks s' calls"; cases "sampler_Checks s' (calls @ [(ent, ce)])")
      (simp add: call step r)
qed

lemma scenario_step:
  assumes "Enabled fac l" "k < 2 ^ 64 - 1"
  shows "map forwarded (fst (sampler_Checks (Sample fac d 1 3)
            (replicate (Suc k) (\<lparr>Level = l, Message = m\<rparr>, ce)))) =
         map forwarded (fst (sampler_Checks (Sample fac d 1 3)
            (replicate k (\<lparr>Level = l, Message = m\<rparr>, ce)))) @ [k = 0 \<or> k mod 3 = 0]"
proof -
  let ?call = "(\<lparr>Level = l, Message = m\<rparr>, ce)"
  have h: "hits fac m (replicate k ?call) = k"
    using assms by (simp add: hits_def)
  have nz: "thereafter (Sample fac d 1 3) \<noteq> 0"
    by (simp add: Sample_def)
  have r: "replicate (Suc k) ?call = replicate k ?call @ [?call]"
    by (simp add: replicate_append_same)
  have "fst (sampler_Check (fst (snd (sampler_Checks (Sample fac d 1 3) (replicate k ?call))))
          \<lparr>Level = l, Message = m\<rparr> ce) =
        Inr (if Suc k \<le> nat 1 \<or> (Suc k - nat 1) mod nat 3 = 0
          then ReturnFacilityCheck (Check fac \<lparr>Level = l, Message = m\<rparr> ce) else ReturnCe ce)"
    using assms h by (intro nth_Check_return) simp_all
  then show ?thesis
    unfolding r sampler_Checks_snoc [OF nz] by simp
qed

lemma scenario_all:
  assumes "Enabled fac l"
  shows "k < 2 ^ 64 \<Longrightarrow>
    map forwarded (fst (sampler_Checks (Sample fac d 1 3)
            (replicate k (\<lparr>Level = l, Message = m\<rparr>, ce)))) =
    map (\<lambda>i. i = 0 \<or> i mod 3 = 0) [0..<k]"
proof (induction k)
  case 0
  show ?case by simp
next
  case (Suc k)
  then have "k < 2 ^ 64 - 1" and "k < 2 ^ 64" by simp_all
  then show ?case
    using Suc.IH by (simp only: scenario_step [OF assms] upt_Suc_append [OF le0] map_append list.map)
qed

text \<open>
  Claim C1. For a sampler built by \<^verbatim>\<open>Sample\<close> with \<open>first \<ge> 0\<close> and
  \<open>thereafter \<ge> 1\<close>, and an entry whose level the wrapped facility has enabled, the
  \<open>n\<close>th \<^verbatim>\<open>Check\<close> call for the entry's message (no timer fires in between, and
  \<open>n\<close> is within the range of the 64-bit counter) returns the wrapped facility's
  \<^verbatim>\<open>Check\<close> iff \<open>n \<le> first\<close> or \<open>(n - first) mod thereafter = 0\<close>, and returns
  the checked entry it was given otherwise. Calls for other messages and calls at
  disabled levels may come in between. The count is a \<^verbatim>\<open>uint64\<close>: for every \<open>n\<close>
  the call decides by the same test on \<open>n\<close> modulo \<open>2 ^ 64\<close>. With \<open>first = 1\<close>
  and \<open>thereafter = 3\<close>, ten successive calls for the message foo are forwarded at
  calls 1, 4, 7 and 10.
\<close>

theorem sampler_Check_cadence:
  "(0 \<le> a \<and> a < 2 ^ 63 \<and> 1 \<le> b \<and> b < 2 ^ 63 \<and> Enabled fac (Level ent) \<and>
    n = Suc (hits fac (Message ent) calls) \<and> n < 2 ^ 64 \<longrightarrow>
      fst (sampler_Check (fst (snd (sampler_Checks (Sample fac d a b) calls))) ent ce) =
        Inr (if n \<le> nat a \<or> (n - nat a) mod nat b = 0
             then ReturnFacilityCheck (Check fac ent ce) else ReturnCe ce)) \<and>
   (0 \<le> a \<and> a < 2 ^ 63 \<and> 1 \<le> b \<and> b < 2 ^ 63 \<and> Enabled fac (Level ent) \<and>
    n = Suc (hits fac (Message ent) calls) \<longrightarrow>
      fst (sampler_Check (fst (snd (sampler_Checks (Sample fac d a b) calls))) ent ce) =
        Inr (if (of_nat n :: uint64) \<le> word_of_int a \<or>
                ((of_nat n :: uint64) - word_of_int a) mod word_of_int b = 0
             then ReturnFacilityCheck (Check fac ent ce) else ReturnCe ce)) \<and>
   (Enabled fac l \<longrightarrow>
      map forwarded
        (fst (sampler_Checks (Sample fac d 1 3)
           (replicate 10 (\<lparr>Level = l, Message = ''foo''\<rparr>, ce)))) =
      [True, False, False, True, False, False, True, False, False, True])"
proof (intro conjI impI)
  assume "0 \<le> a \<and> a < 2 ^ 63 \<and> 1 \<le> b \<and> b < 2 ^ 63 \<and> Enabled fac (Level ent) \<and>
    n = Suc (hits fac (Message ent) calls)"
  then show "fst (sampler_Check (fst (snd (sampler_Checks (Sample fac d a b) calls))) ent ce) =
        Inr (if (of_nat n :: uint64) \<le> word_of_int a \<or>
                ((of_nat n :: uint64) - word_of_int a) mod word_of_int b = 0
             then ReturnFacilityCheck (Check fac ent ce) else ReturnCe ce)"
    using nth_Check_return_word [of a b fac ent n calls d ce] by blast
next
  assume "0 \<le> a \<and> a < 2 ^ 63 \<and> 1 \<le> b \<and> b < 2 ^ 63 \<and> Enabled fac (Level ent) \<and>
    n = Suc (hits fac (Message ent) calls) \<and> n < 2 ^ 64"
  then show "fst (sampler_Check (fst (snd (sampler_Checks (Sample fac d a b) calls))) ent ce) =
        Inr (if n \<le> nat a \<or> (n - nat a) mod nat b = 0
             then ReturnFacilityCheck (Check fac ent ce) else ReturnCe ce)"
    using nth_Check_return [of a b fac ent n calls d ce] by blast
next
  have u: "map (\<lambda>i::nat. i = 0 \<or> i mod 3 = 0) [0..<10] =
      [True, False, False, True, False, False, True, False, False, True]"
    by code_simp
  assume en: "Enabled fac l"
  show "map forwarded
        (fst (sampler_Checks (Sample fac d 1 3)
           (replicate 10 (\<lparr>Level = l, Message = ''foo''\<rparr>, ce)))) =
      [True, False, False, True, False, False, True, False, False, True]"
    using scenario_all [OF en, of 10 d "''foo''" ce] u by simp
qed

theorem sampler_Check_cadence_witness:
  "(0::int) \<le> 1 \<and> (1::int) < 2 ^ 63 \<and> (1::int) \<le> 3 \<and> (3::int) < 2 ^ 63 \<and>
   Enabled \<lparr>Enabled = \<lambda>l::nat. True, Check = \<lambda>ent (ce::nat). Suc ce\<rparr>
     (Level \<lparr>Level = 0, Message = ''foo''\<rparr>) \<and>
   (4::nat) = Suc (hits \<lparr>Enabled = \<lambda>l::nat. True, Check = \<lambda>ent (ce::nat). Suc ce\<rparr>
       (Message \<lparr>Level = 0::nat, Message = ''foo''\<rparr>)
       (replicate 3 (\<lparr>Level = 0, Message = ''foo''\<rparr>, 0))) \<and>
   (4::nat) < 2 ^ 64 \<and>
   fst (sampler_Check
     (fst (snd (sampler_Checks
        (Sample \<lparr>Enabled = \<lambda>l::nat. True, Check = \<lambda>ent (ce::nat). Suc ce\<rparr> 1 1 3)
        (replicate 3 (\<lparr>Level = 0, Message = ''foo''\<rparr>, 0)))))
     \<lparr>Level = 0, Message = ''foo''\<rparr> 7) = Inr (ReturnFacilityCheck 8) \<and>
   map forwarded
     (fst (sampler_Checks
        (Sample \<lparr>Enabled = \<lambda>l::nat. True, Check = \<lambda>ent (ce::nat). Suc ce\<rparr> 1 1 3)
        (replicate 10 (\<lparr>Level = 0, Message = ''foo''\<rparr>, 7)))) =
     [True, False, False, True, False, False, True, False, False, True]"
proof -
  let ?fac = "\<lparr>Enabled = \<lambda>l::nat. True, Check = \<lambda>ent (ce::nat). Suc ce\<rparr>"
  let ?ent = "\<lparr>Level = 0::nat, Message = ''foo''\<rparr>"
  have h: "(0::int) \<le> 1 \<and> (1::int) < 2 ^ 63 \<and> (1::int) \<le> 3 \<and> (3::int) < 2 ^ 63 \<and>
    Enabled ?fac (Level ?ent) \<and>
    (4::nat) = Suc (hits ?fac (Message ?ent) (replicate 3 (?ent, 0))) \<and> (4::nat) < 2 ^ 64"
    by (simp add: hits_def)
  have e: "Enabled ?fac 0" by simp
  have v: "(if (4::nat) \<le> nat 1 \<or> (4 - nat 1) mod nat 3 = 0
             then ReturnFacilityCheck (Check ?fac ?ent 7) else ReturnCe 7) =
           ReturnFacilityCheck 8"
    by simp
  note t = sampler_Check_cadence [where a = 1 and b = 3 and d = 1 and n = 4 and ce = 7
      and l = 0 and fac = ?fac and ent = ?ent and calls = "replicate 3 (?ent, 0)"]
  from t h have "fst (sampler_Check
      (fst (snd (sampler_Checks (Sample ?fac 1 1 3) (replicate 3 (?ent, 0))))) ?ent 7) =
      Inr (if (4::nat) \<le> nat 1 \<or> (4 - nat 1) mod nat 3 = 0
             then ReturnFacilityCheck (Check ?fac ?ent 7) else ReturnCe 7)"
    by blast
  then have c1: "fst (sampler_Check
      (fst (snd (sampler_Checks (Sample ?fac 1 1 3) (replicate 3 (?ent, 0))))) ?ent 7) =
      Inr (ReturnFacilityCheck 8)"
    by (simp only: v)
  from t e have c2: "map forwarded
     (fst (sampler_Checks (Sample ?fac 1 1 3) (replicate 10 (?ent, 7)))) =
     [True, False, False, True, False, False, True, False, False, True]"
    by blast
  from h c1 c2 show ?thesis by blast
qed

subsection \<open>Entries at a disabled level\<close>

lemma sampler_Checks_disabled:
  "\<forall>(ent, ce) \<in> set calls. \<not> Enabled (Facility s) (Level ent) \<Longrightarrow>
   sampler_Checks s calls = (map (\<lambda>(ent, ce). Inr (ReturnCe ce)) calls, s, [])"
  by (induction calls) (auto simp: sampler_Check_disabled_eq)

text \<open>
  Claim C9. When the wrapped facility reports the entry's level as not enabled,
  \<^verbatim>\<open>Check\<close> returns the checked entry it was given, leaves the sampler as it was (the
  counter of every key, the entry's message included, is what it was before the call)
  and arms no timer. So after any number of such calls the next call finds the counts
  where they stood: it does what it would have done without them.
\<close>

theorem sampler_Check_disabled:
  "(\<not> Enabled (Facility s) (Level ent) \<longrightarrow>
      sampler_Check s ent ce = (Inr (ReturnCe ce), s, []) \<and>
      (\<forall>key. counts (fst (snd (sampler_Check s ent ce))) key = counts s key)) \<and>
   ((\<forall>(e, c) \<in> set calls. \<not> Enabled (Facility s) (Level e)) \<longrightarrow>
      sampler_Checks s calls = (map (\<lambda>(e, c). Inr (ReturnCe c)) calls, s, []) \<and>
      sampler_Check (fst (snd (sampler_Checks s calls))) ent' ce' = sampler_Check s ent' ce')"
  by (simp add: sampler_Check_disabled_eq sampler_Checks_disabled)

theorem sampler_Check_disabled_witness:
  "\<not> Enabled (Facility (Sample \<lparr>Enabled = \<lambda>l::nat. 1 \<le> l, Check = \<lambda>ent (ce::nat). Suc ce\<rparr> 1 1 3))
       (Level \<lparr>Level = 0, Message = ''foo''\<rparr>) \<and>
   sampler_Check (Sample \<lparr>Enabled = \<lambda>l::nat. 1 \<le> l, Check = \<lambda>ent (ce::nat). Suc ce\<rparr> 1 1 3)
      \<lparr>Level = 0, Message = ''foo''\<rparr> 5 =
     (Inr (ReturnCe 5), Sample \<lparr>Enabled = \<lambda>l::nat. 1 \<le> l, Check = \<lambda>ent (ce::nat). Suc ce\<rparr> 1 1 3, []) \<and>
   fst (sampler_Checks (Sample \<lparr>Enabled = \<lambda>l::nat. 1 \<le> l, Check = \<lambda>ent (ce::nat). Suc ce\<rparr> 1 1 3)
      [(\<lparr>Level = 0, Message = ''foo''\<rparr>, 5), (\<lparr>Level = 0, Message = ''foo''\<rparr>, 6)]) =
     [Inr (ReturnCe 5), Inr (ReturnCe 6)]"
proof -
  let ?fac = "\<lparr>Enabled = \<lambda>l::nat. 1 \<le> l, Check = \<lambda>ent (ce::nat). Suc ce\<rparr>"
  let ?ent = "\<lparr>Level = 0::nat, Message = ''foo''\<rparr>"
  let ?calls = "[(?ent, 5::nat), (?ent, 6)]"
  have h1: "\<not> Enabled (Facility (Sample ?fac 1 1 3)) (Level ?ent)"
    by (simp add: Sample_def)
  have h2: "\<forall>(e, c) \<in> set ?calls. \<not> Enabled (Facility (Sample ?fac 1 1 3)) (Level e)"
    by (simp add: Sample_def)
  note t = sampler_Check_disabled [where s = "Sample ?fac 1 1 3" and ent = ?ent and ce = 5
      and calls = ?calls]
  from t h1 have c1: "sampler_Check (Sample ?fac 1 1 3) ?ent 5 =
      (Inr (ReturnCe 5), Sample ?fac 1 1 3, [])" by blast
  from t h2 have "sampler_Checks (Sample ?fac 1 1 3) ?calls =
      (map (\<lambda>(e, c). Inr (ReturnCe c)) ?calls, Sample ?fac 1 1 3, [])" by blast
  then have c2: "fst (sampler_Checks (Sample ?fac 1 1 3) ?calls) =
      [Inr (ReturnCe 5), Inr (ReturnCe 6)]" by simp
  from h1 c1 c2 show ?thesis by blast
qed

subsection \<open>Construction\<close>

lemma sampler_Checks_config:
  "Facility (fst (snd (sampler_Checks s calls))) = Facility s \<and>
   first (fst (snd (sampler_Checks s calls))) = first s"
proof (induction calls arbitrary: s)
  case Nil
  show ?case by simp
next
  case (Cons call calls)
  obtain e c where call: "call = (e, c)" by (cases call)
  obtain r s' armed where step: "sampler_Check s e c = (r, s', armed)"
    by (cases "sampler_Check s e c")
  have s': "Facility s' = Facility s \<and> first s' = first s"
    using sampler_Check_sampler [of s e c] step by (simp split: if_splits)
  show ?case
    using Cons.IH [of s'] s'
    by (cases r; cases "sampler_Checks s' calls") (simp_all add: call step)
qed

lemma unat_uint64_minus_one:
  "unat (word_of_int (- 1) :: uint64) = 18446744073709551615"
  by (simp add: unsigned_minus_1_eq_mask mask_eq_exp_minus_1)

lemma unat_word_of_int_mod:
  "unat (word_of_int a :: uint64) = nat (a mod 2 ^ 64)"
  by (simp add: unat_eq_nat_uint uint_word_of_int)

text \<open>
  Claim C10. \<^verbatim>\<open>Sample\<close> converts \<open>first\<close> and \<open>thereafter\<close> to \<^verbatim>\<open>uint64\<close> with
  no range check, so the sampler holds their residues modulo \<open>2 ^ 64\<close>: with
  \<open>thereafter = - 1\<close> the divisor is \<open>2 ^ 64 - 1\<close>, and with \<open>first = - 1\<close> the burst
  allowance is \<open>2 ^ 64 - 1\<close>, and then every enabled call, after any calls before it,
  is handed to the wrapped facility.
\<close>

theorem Sample_wraps_negative:
  "unat (first (Sample fac d a b)) = nat (a mod 2 ^ 64) \<and>
   unat (thereafter (Sample fac d a b)) = nat (b mod 2 ^ 64) \<and>
   unat (thereafter (Sample fac d a (- 1))) = 2 ^ 64 - 1 \<and>
   unat (first (Sample fac d (- 1) b)) = 2 ^ 64 - 1 \<and>
   (Enabled fac (Level ent) \<longrightarrow>
      fst (sampler_Check (fst (snd (sampler_Checks (Sample fac d (- 1) b) calls))) ent ce) =
        Inr (ReturnFacilityCheck (Check fac ent ce)))"
proof -
  let ?s = "fst (snd (sampler_Checks (Sample fac d (- 1) b) calls))"
  have c: "Facility ?s = fac" "first ?s = - 1"
    using sampler_Checks_config [of "Sample fac d (- 1) b" calls]
    by (simp_all add: Sample_def)
  have "fst (sampler_Check ?s ent ce) = Inr (ReturnFacilityCheck (Check fac ent ce))"
    if "Enabled fac (Level ent)"
    using that by (simp add: sampler_Check_return c)
  then show ?thesis
    by (simp add: Sample_def unat_word_of_int_mod unat_uint64_minus_one [simplified])
qed

theorem Sample_wraps_negative_witness:
  "Enabled \<lparr>Enabled = \<lambda>l::nat. True, Check = \<lambda>ent (ce::nat). Suc ce\<rparr>
     (Level \<lparr>Level = 0, Message = ''foo''\<rparr>) \<and>
   fst (sampler_Check (fst (snd (sampler_Checks
       (Sample \<lparr>Enabled = \<lambda>l::nat. True, Check = \<lambda>ent (ce::nat). Suc ce\<rparr> 1 (- 1) 3)
       (replicate 100 (\<lparr>Level = 0, Message = ''foo''\<rparr>, 0)))))
     \<lparr>Level = 0, Message = ''foo''\<rparr> 7) = Inr (ReturnFacilityCheck 8) \<and>
   unat (thereafter (Sample \<lparr>Enabled = \<lambda>l::nat. True, Check = \<lambda>ent (ce::nat). Suc ce\<rparr> 1 1 (- 1))) =
     18446744073709551615"
proof -
  let ?fac = "\<lparr>Enabled = \<lambda>l::nat. True, Check = \<lambda>ent (ce::nat). Suc ce\<rparr>"
  let ?ent = "\<lparr>Level = 0::nat, Message = ''foo''\<rparr>"
  have e: "Enabled ?fac (Level ?ent)" by simp
  note t = Sample_wraps_negative [where fac = ?fac and ent = ?ent and ce = 7 and d = 1
      and a = 1 and b = 3 and calls = "replicate 100 (?ent, 0)"]
  from t e have "fst (sampler_Check (fst (snd (sampler_Checks
       (Sample ?fac 1 (- 1) 3) (replicate 100 (?ent, 0))))) ?ent 7) =
       Inr (ReturnFacilityCheck (Check ?fac ?ent 7))" by blast
  then have c: "fst (sampler_Check (fst (snd (sampler_Checks
       (Sample ?fac 1 (- 1) 3) (replicate 100 (?ent, 0))))) ?ent 7) =
       Inr (ReturnFacilityCheck 8)" by simp
  from t have "unat (thereafter (Sample ?fac 1 1 (- 1))) = 2 ^ 64 - 1" by blast
  then have u: "unat (thereafter (Sample ?fac 1 1 (- 1))) = 18446744073709551615" by simp
  from e c u show ?thesis by blast
qed

text \<open>
  Claim C2, as amended. \<^verbatim>\<open>Sample\<close> checks none of its arguments: called with
  \<open>thereafter = 0\<close> it returns a sampler whose \<open>thereafter\<close> is 0, with fresh
  counters. A \<^verbatim>\<open>Check\<close> call panics exactly when \<open>thereafter\<close> is 0, the level is
  enabled and the new count exceeds \<open>first\<close>, that is at the first throttled call,
  with the integer division by zero, and \<^verbatim>\<open>Check\<close> has no other panic.
\<close>

theorem Sample_zero_thereafter_deferred:
  "thereafter (Sample fac d a 0) = 0 \<and>
   counts (Sample fac d a 0) = newCounters \<and>
   ((fst (sampler_Check s ent ce) = Inl IntegerDivideByZero) =
      (thereafter s = 0 \<and> Enabled (Facility s) (Level ent) \<and>
       first s < count_of (counts s) (Message ent) + 1)) \<and>
   ((\<exists>p. fst (sampler_Check s ent ce) = Inl p) =
      (fst (sampler_Check s ent ce) = Inl IntegerDivideByZero))"
  by (auto simp: Sample_def sampler_Check_return)

text \<open>
  The claim as stated fails: \<^verbatim>\<open>Sample\<close> with \<open>first = 1\<close> and \<open>thereafter = 0\<close>
  returns a sampler, whose first call for a message is forwarded and whose second
  call panics.
\<close>

theorem Sample_zero_thereafter_counterexample:
  "Sample \<lparr>Enabled = \<lambda>l::nat. True, Check = \<lambda>ent (ce::nat). Suc ce\<rparr> 1 1 0 =
     \<lparr>Facility = \<lparr>Enabled = \<lambda>l::nat. True, Check = \<lambda>ent (ce::nat). Suc ce\<rparr>,
      tick = 1, counts = newCounters, first = 1, thereafter = 0\<rparr> \<and>
   fst (sampler_Checks
      (Sample \<lparr>Enabled = \<lambda>l::nat. True, Check = \<lambda>ent (ce::nat). Suc ce\<rparr> 1 1 0)
      [(\<lparr>Level = 0, Message = ''foo''\<rparr>, 0), (\<lparr>Level = 0, Message = ''foo''\<rparr>, 0)]) =
     [Inr (ReturnFacilityCheck 1), Inl IntegerDivideByZero]"
  by (simp add: Sample_def sampler_Check_def counters_Inc_def newCounters_def)

subsection \<open>Resetting a key that was never counted\<close>

text \<open>
  Claim C3 says that \<^verbatim>\<open>Reset\<close> of the exact counters completes for a key that was
  never passed to \<^verbatim>\<open>Inc\<close>. On the code it panics: the lookup yields nil, and the
  store through nil is a nil pointer dereference.
\<close>

theorem counters_Reset_unseen_panics:
  "counters_Reset newCounters ''never seen'' = Inl NilPointerDereference"
  by (simp add: counters_Reset_def newCounters_def)

subsection \<open>The counters a sampler is built with\<close>

text \<open>
  Claim C7, as amended. Whatever its arguments, \<^verbatim>\<open>Sample\<close> builds the sampler with
  fresh exact counters (\<^verbatim>\<open>newCounters()\<close>), and \<^verbatim>\<open>Check\<close> counts with their
  \<^verbatim>\<open>Inc\<close>. The sharded counters exist beside them, and no argument selects them.
\<close>

theorem Sample_counts_exact:
  "counts (Sample fac d a b) = newCounters \<and>
   fst (snd (sampler_Check (Sample fac d a b) ent ce)) =
     (if Enabled fac (Level ent)
      then (Sample fac d a b)\<lparr>counts := snd (counters_Inc newCounters (Message ent))\<rparr>
      else Sample fac d a b)"
  by (simp add: Sample_def sampler_Check_sampler counters_Inc_eq)

text \<open>
  The claim as stated fails: no argument makes \<^verbatim>\<open>Sample\<close> build a sampler on
  anything but the fresh exact counters.
\<close>

theorem Sample_sharded_counterexample:
  "\<not> (\<exists>(fac :: (nat, nat) Facility) d a b. counts (Sample fac d a b) \<noteq> newCounters)"
  by (simp add: Sample_def)

subsection \<open>The reset timer\<close>

lemma sampler_Checks_Cons_timers:
  assumes "thereafter s \<noteq> 0"
  shows "snd (snd (sampler_Checks s ((e, c) # calls))) =
    snd (snd (sampler_Check s e c)) @
    snd (snd (sampler_Checks (fst (snd (sampler_Check s e c))) calls))"
proof -
  obtain r s' armed where step: "sampler_Check s e c = (r, s', armed)"
    by (cases "sampler_Check s e c")
  from sampler_Check_no_panic [OF assms, of e c] step
  obtain v where r: "r = Inr v" by auto
  show ?thesis
    by (cases "sampler_Checks s' calls") (simp add: step r)
qed

lemma unat_Suc_uint64:
  "unat c + 1 < 2 ^ 64 \<Longrightarrow> unat (c + 1) = unat c + 1" for c :: uint64
  by (simp add: unat_word_ariths)

lemma timers_armed_count:
  "thereafter s \<noteq> 0 \<Longrightarrow>
   unat (count_of (counts s) m) + hits (Facility s) m calls < 2 ^ 64 \<Longrightarrow>
   length (filter (\<lambda>t. snd t = m) (snd (snd (sampler_Checks s calls)))) =
     (if unat (count_of (counts s) m) \<le> unat (first s) \<and>
         unat (first s) < unat (count_of (counts s) m) + hits (Facility s) m calls
      then 1 else 0)"
proof (induction calls arbitrary: s)
  case Nil
  show ?case by (simp add: hits_def)
next
  case (Cons call calls)
  obtain e c where call: "call = (e, c)" by (cases call)
  let ?s' = "fst (snd (sampler_Check s e c))"
  let ?armed = "snd (snd (sampler_Check s e c))"
  let ?cnt = "count_of (counts s) m"
  have th: "thereafter ?s' \<noteq> 0"
    using Cons.prems(1) by (simp add: sampler_Check_thereafter)
  have cfg: "Facility ?s' = Facility s" "first ?s' = first s"
    by (simp_all add: sampler_Check_sampler)
  have eq: "snd (snd (sampler_Checks s (call # calls))) =
      ?armed @ snd (snd (sampler_Checks ?s' calls))"
    unfolding call by (rule sampler_Checks_Cons_timers [OF Cons.prems(1)])
  show ?case
  proof (cases "Enabled (Facility s) (Level e) \<and> Message e = m")
    case False
    then have h: "hits (Facility s) m (call # calls) = hits (Facility s) m calls"
      by (auto simp: hits_def call)
    have cnt: "count_of (counts ?s') m = ?cnt"
      using False by (auto simp: sampler_Check_sampler count_of_upd)
    have armed: "filter (\<lambda>t. snd t = m) ?armed = []"
      using False by (auto simp: sampler_Check_armed)
    have b: "unat (count_of (counts ?s') m) + hits (Facility ?s') m calls < 2 ^ 64"
      using Cons.prems(2) by (simp add: cnt cfg h)
    show ?thesis
      unfolding eq h using Cons.IH [OF th b]
      by (simp add: armed cnt cfg)
  next
    case True
    then have h: "hits (Facility s) m (call # calls) = Suc (hits (Facility s) m calls)"
      by (simp add: hits_def call)
    have small: "unat ?cnt + 1 < 2 ^ 64"
      using Cons.prems(2) h by simp
    have cnt: "count_of (counts ?s') m = ?cnt + 1"
      using True by (auto simp: sampler_Check_sampler count_of_upd)
    have ucnt: "unat (?cnt + 1) = unat ?cnt + 1"
      using small by (rule unat_Suc_uint64)
    from True have en: "Enabled (Facility s) (Level e)" and msg: "Message e = m"
      by simp_all
    have "?armed = (if unat (?cnt + 1) = unat (first s) + 1 then [(tick s, m)] else [])"
      unfolding sampler_Check_armed msg crossing_iff using en by simp
    then have armed: "length (filter (\<lambda>t. snd t = m) ?armed) =
        (if unat ?cnt = unat (first s) then 1 else 0)"
      by (simp add: ucnt)
    have b: "unat (count_of (counts ?s') m) + hits (Facility ?s') m calls < 2 ^ 64"
      using Cons.prems(2) by (simp add: cnt cfg h ucnt)
    show ?thesis
      unfolding eq h using Cons.IH [OF th b] armed
      by (simp add: cnt cfg ucnt)
  qed
qed

text \<open>
  Claim C8. A \<^verbatim>\<open>Check\<close> call arms a timer exactly when the level is enabled and the
  call brings the count of the entry's message to \<open>first + 1\<close>; there is then one
  timer, its delay is \<open>tick\<close>, and when it fires on counters that hold the key (they
  do from this call on) it sets that key's count to 0 without a panic. A call for a
  key whose count already exceeds \<open>first\<close> arms no timer: another one needs the
  count to come back to \<open>first\<close>, by a reset. Over a run of calls in which no
  timer fires (and the 64-bit count does not wrap) the timers armed for a key are one if
  its count crosses \<open>first\<close> in the run, and none otherwise.
\<close>

theorem sampler_Check_arms_timer:
  "snd (snd (sampler_Check s ent ce)) =
     (if Enabled (Facility s) (Level ent) \<and>
         unat (fst (counters_Inc (counts s) (Message ent))) = unat (first s) + 1
      then [(tick s, Message ent)] else []) \<and>
   (\<forall>t \<in> set (snd (snd (sampler_Check s ent ce))).
      \<forall>c. Message ent \<in> dom c \<longrightarrow> timer_fire t c = Inr (c(Message ent \<mapsto> 0))) \<and>
   (Enabled (Facility s) (Level ent) \<longrightarrow>
      Message ent \<in> dom (counts (fst (snd (sampler_Check s ent ce))))) \<and>
   (first s < count_of (counts s) (Message ent) \<longrightarrow> snd (snd (sampler_Check s ent ce)) = []) \<and>
   (thereafter s \<noteq> 0 \<and> unat (count_of (counts s) m) + hits (Facility s) m calls < 2 ^ 64 \<longrightarrow>
      length (filter (\<lambda>t. snd t = m) (snd (snd (sampler_Checks s calls)))) =
        (if unat (count_of (counts s) m) \<le> unat (first s) \<and>
            unat (first s) < unat (count_of (counts s) m) + hits (Facility s) m calls
         then 1 else 0))"
proof (intro conjI)
  show "thereafter s \<noteq> 0 \<and> unat (count_of (counts s) m) + hits (Facility s) m calls < 2 ^ 64 \<longrightarrow>
      length (filter (\<lambda>t. snd t = m) (snd (snd (sampler_Checks s calls)))) =
        (if unat (count_of (counts s) m) \<le> unat (first s) \<and>
            unat (first s) < unat (count_of (counts s) m) + hits (Facility s) m calls
         then 1 else 0)"
    using timers_armed_count [of s m calls] by blast
  show "snd (snd (sampler_Check s ent ce)) =
     (if Enabled (Facility s) (Level ent) \<and>
         unat (fst (counters_Inc (counts s) (Message ent))) = unat (first s) + 1
      then [(tick s, Message ent)] else [])"
    by (simp only: sampler_Check_armed crossing_iff counters_Inc_eq fst_conv conj_assoc)
  show "\<forall>t \<in> set (snd (snd (sampler_Check s ent ce))).
      \<forall>c. Message ent \<in> dom c \<longrightarrow> timer_fire t c = Inr (c(Message ent \<mapsto> 0))"
    by (auto simp: sampler_Check_armed timer_fire_def counters_Reset_def split: if_splits)
  show "Enabled (Facility s) (Level ent) \<longrightarrow>
      Message ent \<in> dom (counts (fst (snd (sampler_Check s ent ce))))"
    by (simp add: sampler_Check_sampler)
  show "first s < count_of (counts s) (Message ent) \<longrightarrow> snd (snd (sampler_Check s ent ce)) = []"
    using above_no_crossing [of "first s" "count_of (counts s) (Message ent)"]
    by (simp add: sampler_Check_armed crossing_iff)
qed

theorem sampler_Check_arms_timer_witness:
  "Enabled (Facility \<lparr>Facility = \<lparr>Enabled = \<lambda>l::nat. True, Check = \<lambda>ent (ce::nat). Suc ce\<rparr>,
        tick = 5, counts = [''foo'' \<mapsto> 1], first = 1, thereafter = 3\<rparr>)
     (Level \<lparr>Level = 0, Message = ''foo''\<rparr>) \<and>
   snd (snd (sampler_Check
     \<lparr>Facility = \<lparr>Enabled = \<lambda>l::nat. True, Check = \<lambda>ent (ce::nat). Suc ce\<rparr>,
        tick = 5, counts = [''foo'' \<mapsto> 1], first = 1, thereafter = 3\<rparr>
     \<lparr>Level = 0, Message = ''foo''\<rparr> 0)) = [(5, ''foo'')] \<and>
   (5, ''foo'') \<in> set (snd (snd (sampler_Check
     \<lparr>Facility = \<lparr>Enabled = \<lambda>l::nat. True, Check = \<lambda>ent (ce::nat). Suc ce\<rparr>,
        tick = 5, counts = [''foo'' \<mapsto> 1], first = 1, thereafter = 3\<rparr>
     \<lparr>Level = 0, Message = ''foo''\<rparr> 0))) \<and>
   ''foo'' \<in> dom [''foo'' \<mapsto> 2 :: uint64] \<and>
   timer_fire (5, ''foo'') [''foo'' \<mapsto> 2] = Inr [''foo'' \<mapsto> 0] \<and>
   first \<lparr>Facility = \<lparr>Enabled = \<lambda>l::nat. True, Check = \<lambda>ent (ce::nat). Suc ce\<rparr>,
        tick = 5, counts = [''foo'' \<mapsto> 2], first = 1, thereafter = 3\<rparr>
     < count_of (counts \<lparr>Facility = \<lparr>Enabled = \<lambda>l::nat. True, Check = \<lambda>ent (ce::nat). Suc ce\<rparr>,
        tick = 5, counts = [''foo'' \<mapsto> 2], first = 1, thereafter = 3\<rparr>)
        (Message \<lparr>Level = 0::nat, Message = ''foo''\<rparr>) \<and>
   snd (snd (sampler_Check
     \<lparr>Facility = \<lparr>Enabled = \<lambda>l::nat. True, Check = \<lambda>ent (ce::nat). Suc ce\<rparr>,
        tick = 5, counts = [''foo'' \<mapsto> 2], first = 1, thereafter = 3\<rparr>
     \<lparr>Level = 0, Message = ''foo''\<rparr> 0)) = [] \<and>
   thereafter \<lparr>Facility = \<lparr>Enabled = \<lambda>l::nat. True, Check = \<lambda>ent (ce::nat). Suc ce\<rparr>,
        tick = 5, counts = [''foo'' \<mapsto> 1], first = 1, thereafter = 3\<rparr> \<noteq> 0 \<and>
   unat (count_of [''foo'' \<mapsto> 1] ''foo'') +
     hits \<lparr>Enabled = \<lambda>l::nat. True, Check = \<lambda>ent (ce::nat). Suc ce\<rparr> ''foo''
       (replicate 10 (\<lparr>Level = 0, Message = ''foo''\<rparr>, 0)) < 2 ^ 64 \<and>
   length (filter (\<lambda>t. snd t = ''foo'') (snd (snd (sampler_Checks
     \<lparr>Facility = \<lparr>Enabled = \<lambda>l::nat. True, Check = \<lambda>ent (ce::nat). Suc ce\<rparr>,
        tick = 5, counts = [''foo'' \<mapsto> 1], first = 1, thereafter = 3\<rparr>
     (replicate 10 (\<lparr>Level = 0, Message = ''foo''\<rparr>, 0)))))) = 1"
proof -
  let ?fac = "\<lparr>Enabled = \<lambda>l::nat. True, Check = \<lambda>ent (ce::nat). Suc ce\<rparr>"
  let ?ent = "\<lparr>Level = 0::nat, Message = ''foo''\<rparr>"
  let ?s1 = "\<lparr>Facility = ?fac, tick = 5, counts = [''foo'' \<mapsto> 1], first = 1, thereafter = 3\<rparr>"
  let ?s2 = "\<lparr>Facility = ?fac, tick = 5, counts = [''foo'' \<mapsto> 2], first = 1, thereafter = 3\<rparr>"
  note t1 = sampler_Check_arms_timer [where s = ?s1 and ent = ?ent and ce = 0
      and m = "''foo''" and calls = "replicate 10 (?ent, 0)"]
  note t2 = sampler_Check_arms_timer [where s = ?s2 and ent = ?ent and ce = 0]
  have e: "Enabled (Facility ?s1) (Level ?ent)" by simp
  have u: "unat (fst (counters_Inc (counts ?s1) (Message ?ent))) = unat (first ?s1) + 1"
    by (simp add: counters_Inc_def)
  from t1 have "snd (snd (sampler_Check ?s1 ?ent 0)) =
     (if Enabled (Facility ?s1) (Level ?ent) \<and>
         unat (fst (counters_Inc (counts ?s1) (Message ?ent))) = unat (first ?s1) + 1
      then [(tick ?s1, Message ?ent)] else [])" by (rule conjunct1)
  then have a: "snd (snd (sampler_Check ?s1 ?ent 0)) = [(5, ''foo'')]"
    using e u by simp
  then have m: "(5, ''foo'') \<in> set (snd (snd (sampler_Check ?s1 ?ent 0)))" by simp
  have d: "''foo'' \<in> dom [''foo'' \<mapsto> 2 :: uint64]" by simp
  from t1 have "\<forall>t \<in> set (snd (snd (sampler_Check ?s1 ?ent 0))).
      \<forall>c. Message ?ent \<in> dom c \<longrightarrow> timer_fire t c = Inr (c(Message ?ent \<mapsto> 0))"
    by blast
  with m have "\<forall>c. Message ?ent \<in> dom c \<longrightarrow>
      timer_fire (5, ''foo'') c = Inr (c(Message ?ent \<mapsto> 0))"
    by blast
  then have "Message ?ent \<in> dom [''foo'' \<mapsto> 2 :: uint64] \<longrightarrow>
      timer_fire (5, ''foo'') [''foo'' \<mapsto> 2] = Inr ([''foo'' \<mapsto> 2](Message ?ent \<mapsto> 0))"
    by (rule spec)
  then have f: "timer_fire (5, ''foo'') [''foo'' \<mapsto> 2] = Inr [''foo'' \<mapsto> 0]"
    by simp
  have g: "first ?s2 < count_of (counts ?s2) (Message ?ent)"
    by (simp add: count_of_def)
  from t2 g have n: "snd (snd (sampler_Check ?s2 ?ent 0)) = []" by blast
  have th: "thereafter ?s1 \<noteq> 0" by simp
  have hs: "hits ?fac ''foo'' (replicate 10 (?ent, 0)) = 10" by (simp add: hits_def)
  have cf: "unat (count_of [''foo'' \<mapsto> 1] ''foo'') = 1" by (simp add: count_of_def)
  have b: "unat (count_of [''foo'' \<mapsto> 1] ''foo'') + hits ?fac ''foo'' (replicate 10 (?ent, 0))
      < 2 ^ 64"
    unfolding hs cf by simp
  have b': "unat (count_of (counts ?s1) ''foo'') + hits (Facility ?s1) ''foo'' (replicate 10 (?ent, 0))
      < 2 ^ 64"
    using b by simp
  from t1 th b' have "length (filter (\<lambda>t. snd t = ''foo'')
      (snd (snd (sampler_Checks ?s1 (replicate 10 (?ent, 0)))))) =
      (if unat (count_of (counts ?s1) ''foo'') \<le> unat (first ?s1) \<and>
          unat (first ?s1) < unat (count_of (counts ?s1) ''foo'') +
            hits (Facility ?s1) ''foo'' (replicate 10 (?ent, 0))
       then 1 else 0)"
    by blast
  also have "\<dots> = 1"
    using hs cf by simp
  finally have k: "length (filter (\<lambda>t. snd t = ''foo'')
      (snd (snd (sampler_Checks ?s1 (replicate 10 (?ent, 0)))))) = 1" .
  from e a m d f g n th b k show ?thesis by blast
qed

subsection \<open>The hash and the slot of a key\<close>

lemma low_byte_shifted_out: "drop_bit 56 (n AND 0xff) = 0" for n :: uint64
proof -
  have "drop_bit 56 (n AND mask 8) = 0"
    by (rule bit_word_eqI) (simp add: bit_simps)
  then show ?thesis by (simp add: mask_eq_exp_minus_1)
qed

lemma xorstring_loop_foldl:
  "xorstring_loop n s = foldl (\<lambda>n b. (drop_bit 56 (n AND 0xff) OR push_bit 8 n) XOR of_char b) n s"
  by (induction s arbitrary: n) simp_all

lemma xorstring_spec_fold: "xorstring key = spec_fold key"
  by (simp add: xorstring_def spec_fold_def xorstring_loop_foldl)

lemma xshrr_spec_permute: "xshrr n = spec_permute n"
  by (simp add: xshrr_def spec_permute_def)

lemma unat_hash: "unat (hash key) = unat (xshrr (xorstring key)) mod 8192"
  by (simp add: hash_def counters2Width_def unat_mod)

lemma hash_spec_slot: "unat (hash key) = spec_slot counters2Width key"
  by (simp add: unat_hash spec_slot_def xorstring_spec_fold xshrr_spec_permute counters2Width_def)

lemma hash_less: "unat (hash key) < 8192"
  by (simp add: unat_hash)

lemma unat_div8: "unat (i div of_nat counters2PerLock) = unat i div 8" for i :: uint32
  by (simp add: counters2PerLock_def unat_div)

lemma unat_and7: "unat (i AND counters2BucketMask) = unat i mod 8" for i :: uint32
proof -
  have "i AND 7 = i mod 8"
    using word_mod_2p_is_mask [of 3 i] by (simp add: mask_eq_exp_minus_1)
  then show ?thesis by (simp add: counters2BucketMask_def unat_mod)
qed

lemma xorstring_loop_step:
  "xorstring_loop n (b # s) = xorstring_loop (push_bit 8 n XOR of_char b) s"
  by (simp add: low_byte_shifted_out)

lemma xorstring_loop_8:
  "xorstring_loop n (b1 # b2 # b3 # b4 # b5 # b6 # b7 # b8 # s) =
   xorstring_loop 0 (b1 # b2 # b3 # b4 # b5 # b6 # b7 # b8 # s)"
  by (simp only: xorstring_loop_step) simp

lemma xorstring_loop_append:
  "xorstring_loop n (s @ t) = xorstring_loop (xorstring_loop n s) t"
  by (induction s arbitrary: n) simp_all

subsection \<open>The sharded counters\<close>

lemma bucket_index_less: "unat (hash key div of_nat counters2PerLock) < 8192"
  using hash_less [of key] by (simp add: unat_div8)

lemma slot_index_less: "unat (hash key AND counters2BucketMask) < 8"
  by (simp add: unat_and7)

lemma slot_indices_eq_iff:
  "(unat (hash k div of_nat counters2PerLock) = unat (hash k' div of_nat counters2PerLock) \<and>
    unat (hash k AND counters2BucketMask) = unat (hash k' AND counters2BucketMask)) =
   (hash k = hash k')"
proof -
  have "(unat (hash k) div 8 = unat (hash k') div 8 \<and> unat (hash k) mod 8 = unat (hash k') mod 8) =
    (unat (hash k) = unat (hash k'))"
    by (metis div_mult_mod_eq)
  then show ?thesis by (simp add: unat_div8 unat_and7 word_unat_eq_iff)
qed

lemma counters2_wf_bucket:
  "counters2_wf c \<Longrightarrow> j < 8192 \<Longrightarrow> length (c ! j) = 8"
  by (simp add: counters2_wf_def counters2Width_def counters2PerLock_def list_all_length)

lemma counters2_wf_new: "counters2_wf newCounters2"
  by (simp add: counters2_wf_def newCounters2_def list_all_length)

lemma counters2_count_new: "counters2_count newCounters2 key = 0"
  using bucket_index_less [of key] slot_index_less [of key]
  by (simp add: counters2_count_def newCounters2_def counters2Width_def counters2PerLock_def)

lemma counters2_Inc_eq:
  "counters2_Inc c key =
     (counters2_count c key + 1,
      c[unat (hash key div of_nat counters2PerLock) :=
          (c ! unat (hash key div of_nat counters2PerLock))
            [unat (hash key AND counters2BucketMask) := counters2_count c key + 1]])"
  by (simp add: counters2_Inc_def bucket2_inc_def counters2_count_def Let_def)

lemma counters2_Reset_eq:
  "counters2_Reset c key =
      c[unat (hash key div of_nat counters2PerLock) :=
          (c ! unat (hash key div of_nat counters2PerLock))
            [unat (hash key AND counters2BucketMask) := 0]]"
  by (simp add: counters2_Reset_def bucket2_reset_def Let_def)

lemma counters2_wf_update:
  assumes "counters2_wf c"
  shows "counters2_wf (c[unat (hash key div of_nat counters2PerLock) :=
          (c ! unat (hash key div of_nat counters2PerLock))
            [unat (hash key AND counters2BucketMask) := v]])"
  using assms bucket_index_less [of key]
  by (auto simp: counters2_wf_def list_all_length nth_list_update counters2Width_def)

lemma counters2_count_update:
  assumes "counters2_wf c"
  shows "counters2_count (c[unat (hash key div of_nat counters2PerLock) :=
          (c ! unat (hash key div of_nat counters2PerLock))
            [unat (hash key AND counters2BucketMask) := v]]) k =
         (if hash k = hash key then v else counters2_count c k)"
proof -
  let ?j = "unat (hash key div of_nat counters2PerLock)"
  let ?p = "unat (hash key AND counters2BucketMask)"
  let ?j' = "unat (hash k div of_nat counters2PerLock)"
  let ?p' = "unat (hash k AND counters2BucketMask)"
  have len: "length c = 8192" using assms by (simp add: counters2_wf_def counters2Width_def)
  have j: "?j < 8192" "?j' < 8192" by (rule bucket_index_less)+
  have p: "?p < 8" "?p' < 8" by (rule slot_index_less)+
  have lb: "length (c ! ?j) = 8" using assms j by (simp add: counters2_wf_bucket)
  show ?thesis
  proof (cases "hash k = hash key")
    case True
    then show ?thesis using len j p lb by (simp add: counters2_count_def)
  next
    case False
    then have "\<not> (?j' = ?j \<and> ?p' = ?p)" by (simp add: slot_indices_eq_iff)
    then show ?thesis using False len j p lb
      by (auto simp: counters2_count_def nth_list_update)
  qed
qed

lemma counters_Reset_Inr:
  "counters_Reset c key = Inr c' \<Longrightarrow> c' = c(key \<mapsto> 0)"
  by (simp add: counters_Reset_def split: option.splits)

lemma run_counters2_refines:
  assumes inj: "inj_on hash K"
  shows "op_key ` set ops \<subseteq> K \<Longrightarrow> counters2_wf c2 \<Longrightarrow>
    \<forall>k \<in> K. count_of c k = counters2_count c2 k \<Longrightarrow>
    run_counters c ops = Inr (ns, c') \<Longrightarrow> fst (run_counters2 c2 ops) = ns"
proof (induction ops arbitrary: c c2 ns c')
  case Nil
  then show ?case by simp
next
  case (Cons op ops)
  have keys: "op_key ` set ops \<subseteq> K" and key: "op_key op \<in> K"
    using Cons.prems(1) by auto
  have same: "(hash k = hash (op_key op)) = (k = op_key op)" if "k \<in> K" for k
    using inj key that by (auto dest: inj_onD)
  show ?case
  proof (cases op)
    case (Inc key)
    let ?v = "counters2_count c2 key + 1"
    let ?c2 = "snd (counters2_Inc c2 key)"
    let ?c = "c(key \<mapsto> ?v)"
    have v: "count_of c key + 1 = ?v" using Cons.prems(3) key Inc by simp
    obtain ns' where run: "run_counters ?c ops = Inr (ns', c')" and ns: "ns = ?v # ns'"
      using Cons.prems(4) Inc v
      by (auto simp: counters_Inc_eq split: sum.splits)
    have wf: "counters2_wf ?c2"
      using Cons.prems(2) by (simp add: counters2_Inc_eq counters2_wf_update)
    have agree: "\<forall>k \<in> K. count_of ?c k = counters2_count ?c2 k"
      using Cons.prems(2,3) same Inc
      by (simp add: counters2_Inc_eq counters2_count_update count_of_upd)
    have "fst (run_counters2 ?c2 ops) = ns'"
      using Cons.IH [OF keys wf agree run] .
    then show ?thesis
      using ns Inc by (auto simp: counters2_Inc_eq split: prod.splits)
  next
    case (Reset key)
    let ?c2 = "counters2_Reset c2 key"
    obtain c1 where r: "counters_Reset c key = Inr c1" and run: "run_counters c1 ops = Inr (ns, c')"
      using Cons.prems(4) Reset by (auto split: sum.splits)
    have c1: "c1 = c(key \<mapsto> 0)" using r by (rule counters_Reset_Inr)
    have wf: "counters2_wf ?c2"
      using Cons.prems(2) by (simp add: counters2_Reset_eq counters2_wf_update)
    have agree: "\<forall>k \<in> K. count_of c1 k = counters2_count ?c2 k"
      using Cons.prems(2,3) same Reset
      by (simp add: c1 counters2_Reset_eq counters2_count_update count_of_upd)
    have "fst (run_counters2 ?c2 ops) = ns"
      using Cons.IH [OF keys wf agree run] .
    then show ?thesis using Reset by simp
  qed
qed

lemma counters2_refines_counters:
  assumes "inj_on hash (op_key ` set ops)"
    and "run_counters newCounters ops = Inr (ns, c)"
  shows "fst (run_counters2 newCounters2 ops) = ns"
  using run_counters2_refines [OF assms(1) subset_refl counters2_wf_new _ assms(2)]
  by (simp add: count_of_newCounters counters2_count_new)

lemma counters2_Inc_post_increment:
  "fst (counters2_Inc c key) = counters2_count c key + 1 \<and>
   (counters2_wf c \<longrightarrow> counters2_count (snd (counters2_Inc c key)) key = counters2_count c key + 1)"
  by (simp add: counters2_Inc_eq counters2_count_update)

lemma counters2_collision_merges:
  "counters2_wf c \<Longrightarrow> hash k1 = hash k2 \<Longrightarrow>
   fst (counters2_Inc (snd (counters2_Inc c k1)) k2) = counters2_count c k1 + 2"
  by (simp add: counters2_Inc_eq counters2_count_update)

lemma hash_a_b: "hash ''a'' = hash ''b''"
  by code_simp

lemma counters2_collision_example:
  "fst (run_counters2 newCounters2 [Inc ''a'', Inc ''b'']) = [1, 2] \<and>
   run_counters newCounters [Inc ''a'', Inc ''b''] = Inr ([1, 1], [''a'' \<mapsto> 1, ''b'' \<mapsto> 1])"
  using counters2_collision_merges [OF counters2_wf_new hash_a_b]
  by (simp add: counters2_Inc_eq counters2_count_new counters_Inc_eq count_of_newCounters
        newCounters_def count_of_def split: prod.splits)

text \<open>
  Claim C5 says that on every sequence of \<^verbatim>\<open>Inc\<close> and \<^verbatim>\<open>Reset\<close> calls without
  colliding keys the sharded counters return the counts of the exact ones. The lemmas
  above give it for the sequences the exact counters complete, with the count an
  \<^verbatim>\<open>Inc\<close> returns and the merging of colliding keys. On the code the claim fails where
  a key is reset before it was counted: the exact counters panic, the sharded ones go on.
\<close>

theorem counters2_diverges_on_unseen_Reset:
  "run_counters newCounters [Reset ''a'', Inc ''a''] = Inl NilPointerDereference \<and>
   fst (run_counters2 newCounters2 [Reset ''a'', Inc ''a'']) = [1]"
  by (simp add: counters_Reset_def newCounters_def counters2_Inc_eq counters2_Reset_eq
        counters2_count_update counters2_wf_new counters2_count_new split: prod.splits)

text \<open>
  Claim C4. For every key the index \<^verbatim>\<open>hash\<close> returns is the reference hash of the
  specification, fold, XSH-RR permutation and residue modulo the width, and the bucket
  and the position within it that \<^verbatim>\<open>Inc\<close> and \<^verbatim>\<open>Reset\<close> address are that index
  divided by 8 and its remainder, within the table. The hash reads the key alone: equal
  keys have equal indices.
\<close>

theorem hash_is_reference_slot:
  "unat (hash key) = spec_slot counters2Width key \<and>
   xorstring key = spec_fold key \<and>
   xshrr n = spec_permute n \<and>
   unat (hash key div of_nat counters2PerLock) * counters2PerLock +
     unat (hash key AND counters2BucketMask) = spec_slot counters2Width key \<and>
   unat (hash key div of_nat counters2PerLock) < counters2Locks \<and>
   unat (hash key AND counters2BucketMask) < counters2PerLock \<and>
   (k1 = k2 \<longrightarrow> hash k1 = hash k2)"
proof -
  have l: "unat (hash key) div 8 < 1024" using hash_less [of key] by simp
  have a: "unat (hash key div of_nat counters2PerLock) = unat (hash key) div 8"
    by (rule unat_div8)
  have b: "unat (hash key AND counters2BucketMask) = unat (hash key) mod 8"
    by (rule unat_and7)
  show ?thesis
    unfolding a b using l
    by (simp add: hash_spec_slot [symmetric] xorstring_spec_fold xshrr_spec_permute
        counters2PerLock_def counters2Locks_def)
qed

theorem hash_is_reference_slot_witness:
  "''foo'' = ''foo'' \<and> hash ''foo'' = hash ''foo'' \<and>
   unat (hash ''a12345678'') = spec_slot counters2Width ''a12345678'' \<and>
   spec_slot counters2Width ''a12345678'' = 8124"
proof -
  have e: "''foo'' = ''foo''" by simp
  note t = hash_is_reference_slot [where key = "''a12345678''" and ?k1.0 = "''foo''" and ?k2.0 = "''foo''"]
  from t e have h: "hash ''foo'' = hash ''foo''" by blast
  from t have s: "unat (hash ''a12345678'') = spec_slot counters2Width ''a12345678''" by blast
  have "hash ''a12345678'' = 8124" by code_simp
  then have "unat (hash ''a12345678'') = 8124" by simp
  with s have v: "spec_slot counters2Width ''a12345678'' = 8124" by simp
  from e h s v show ?thesis by blast
qed

text \<open>
  Claim C6 says that every byte of the key influences the folded state. On the code the
  term \<^verbatim>\<open>(n & 0xff) >> 56\<close> is always 0, so each step shifts the state left by a byte
  and nothing comes back in at the low end: a byte followed by eight or more bytes is
  shifted out, and two keys that differ in such a byte only fold to the same state.
\<close>

theorem xorstring_drops_early_bytes:
  "xorstring (pre @ c # b1 # b2 # b3 # b4 # b5 # b6 # b7 # b8 # s) =
     xorstring (pre @ d # b1 # b2 # b3 # b4 # b5 # b6 # b7 # b8 # s) \<and>
   xorstring ''a12345678'' = xorstring ''b12345678'' \<and>
   drop_bit 56 (n AND 0xff) = (0 :: uint64)"
proof -
  have "xorstring_loop m (c # b1 # b2 # b3 # b4 # b5 # b6 # b7 # b8 # s) =
        xorstring_loop m (d # b1 # b2 # b3 # b4 # b5 # b6 # b7 # b8 # s)" for m
    by (simp only: xorstring_loop_step [of m] xorstring_loop_8 [of "push_bit 8 m XOR of_char c"]
        xorstring_loop_8 [of "push_bit 8 m XOR of_char d"])
  then have 1: "xorstring (pre @ c # b1 # b2 # b3 # b4 # b5 # b6 # b7 # b8 # s) =
     xorstring (pre @ d # b1 # b2 # b3 # b4 # b5 # b6 # b7 # b8 # s)"
    by (simp only: xorstring_def xorstring_loop_append)
  have 2: "xorstring ''a12345678'' = xorstring ''b12345678''" by code_simp
  from 1 2 low_byte_shifted_out [of n] show ?thesis by blast
qed

end
